theory Spec2Isabelle
  imports Main "HOL-Library.Sublist"
begin

section \<open>Python values, dictionaries and exceptions\<close>

text \<open>
  The program \<^verbatim>\<open>dlfs.py\<close> keeps three Python lists of dictionaries (users, items,
  claims), loaded from and written to JSON files.  A field value is a JSON scalar: a string
  typed at the console, the number or boolean of a hand-written file, or \<^verbatim>\<open>null\<close>.
  Floating-point numbers and nested containers as field values are outside this model.
  A \<^typ>\<open>char\<close> stands for a code point below 256.
\<close>

datatype pyval = PNone | PBool bool | PInt int | PStr string

text \<open>
  A dictionary keeps its keys in insertion order (the order \<^verbatim>\<open>json.dump\<close> writes them in),
  so it is an association list.
\<close>

type_synonym pydict = "(string \<times> pyval) list"

datatype py_error =
    KeyError string
  | AttributeError
  | FileNotFoundError
  | JSONDecodeError
  | UnicodeDecodeError
  | OtherError string

text \<open>Python's \<^verbatim>\<open>==\<close> on scalars: \<^verbatim>\<open>True == 1\<close> and \<^verbatim>\<open>False == 0\<close> hold,
  values of different kinds are otherwise unequal.\<close>

fun num_of :: "pyval \<Rightarrow> int option" where
  "num_of (PBool b) = Some (if b then 1 else 0)"
| "num_of (PInt n) = Some n"
| "num_of PNone = None"
| "num_of (PStr s) = None"

definition py_eq :: "pyval \<Rightarrow> pyval \<Rightarrow> bool" where
  "py_eq a b =
     (case (num_of a, num_of b) of
        (Some x, Some y) \<Rightarrow> x = y
      | _ \<Rightarrow> a = b)"

text \<open>\<^verbatim>\<open>d[k]\<close> raises \<^verbatim>\<open>KeyError\<close> on a missing key.\<close>

definition getitem :: "pydict \<Rightarrow> string \<Rightarrow> py_error + pyval" where
  "getitem d k = (case map_of d k of None \<Rightarrow> Inl (KeyError k) | Some v \<Rightarrow> Inr v)"

text \<open>Reading an instance attribute looks it up in the object's \<^verbatim>\<open>__dict__\<close>.\<close>

definition getattr :: "pydict \<Rightarrow> string \<Rightarrow> py_error + pyval" where
  "getattr obj k = (case map_of obj k of None \<Rightarrow> Inl AttributeError | Some v \<Rightarrow> Inr v)"

text \<open>\<^verbatim>\<open>d[k] = v\<close> overwrites the value of an existing key in place and appends a new key.\<close>

fun setitem :: "pydict \<Rightarrow> string \<Rightarrow> pyval \<Rightarrow> pydict" where
  "setitem [] k v = [(k, v)]"
| "setitem (p # ps) k v = (if fst p = k then (k, v) # ps else p # setitem ps k v)"

subsection \<open>Strings\<close>

text \<open>\<^verbatim>\<open>str(n)\<close> for an integer, as the f-strings of the identifiers format it.\<close>

definition digit_char :: "nat \<Rightarrow> char" where
  "digit_char d = ''0123456789'' ! d"

fun str_nat :: "nat \<Rightarrow> string" where
  "str_nat n = (if n < 10 then [digit_char n] else str_nat (n div 10) @ [digit_char (n mod 10)])"

declare str_nat.simps [simp del]

definition str_int :: "int \<Rightarrow> string" where
  "str_int i = (if i < 0 then CHR ''-'' # str_nat (nat (- i)) else str_nat (nat i))"

text \<open>\<^verbatim>\<open>str.lower()\<close>: below code point 256 the letters with a lower-case form are
  \<^verbatim>\<open>A\<close>--\<^verbatim>\<open>Z\<close> and U+00C0--U+00DE without U+00D7, each 32 below its lower-case form.\<close>

definition lower_char :: "char \<Rightarrow> char" where
  "lower_char c =
     (let n = (of_char c :: nat)
      in if (65 \<le> n \<and> n \<le> 90) \<or> (192 \<le> n \<and> n \<le> 222 \<and> n \<noteq> 215)
         then char_of (n + 32) else c)"

definition py_lower :: "string \<Rightarrow> string" where
  "py_lower s = map lower_char s"

text \<open>\<^verbatim>\<open>sub in s\<close> on strings: \<^verbatim>\<open>sub\<close> occurs in \<^verbatim>\<open>s\<close> as a contiguous run.\<close>

fun str_contains :: "string \<Rightarrow> string \<Rightarrow> bool" where
  "str_contains sub [] = (sub = [])"
| "str_contains sub (c # s) = (prefix sub (c # s) \<or> str_contains sub s)"

section \<open>Storage: \<^verbatim>\<open>load_data\<close> and \<^verbatim>\<open>save_data\<close>\<close>

text \<open>
  The file system is a map from paths to file contents.  Python's \<^verbatim>\<open>json\<close> module is a
  library, not code of the program: \<^verbatim>\<open>json.dump(data, file, indent=4)\<close> and
  \<^verbatim>\<open>json.load(file)\<close> are parameters \<open>dump\<close> and \<open>load\<close> of the functions that call them.
  \<^verbatim>\<open>load_data\<close> opens the file (a missing file raises) and catches \<^verbatim>\<open>JSONDecodeError\<close> only:
  any other exception of \<^verbatim>\<open>json.load\<close> reaches the caller.  Failures of the disk itself are
  not modelled.
\<close>

type_synonym filesystem = "string \<rightharpoonup> string"
type_synonym json_dump = "pydict list \<Rightarrow> string"
type_synonym json_load = "string \<Rightarrow> py_error + pydict list"

definition DATA_DIR :: string where
  "DATA_DIR = ''data''"

text \<open>\<^verbatim>\<open>os.path.join(a, b)\<close> of \<^verbatim>\<open>posixpath\<close>, for two components.\<close>

definition os_path_join :: "string \<Rightarrow> string \<Rightarrow> string" where
  "os_path_join a b =
     (if prefix ''/'' b then b
      else if a = [] \<or> suffix ''/'' a then a @ b
      else a @ ''/'' @ b)"

definition load_data :: "json_load \<Rightarrow> filesystem \<Rightarrow> string \<Rightarrow> py_error + pydict list" where
  "load_data load fs file_name =
     (let path = os_path_join DATA_DIR file_name
      in case fs path of
           None \<Rightarrow> Inl FileNotFoundError
         | Some content \<Rightarrow>
             (case load content of
                Inl JSONDecodeError \<Rightarrow> Inr []
              | Inl e \<Rightarrow> Inl e
              | Inr data \<Rightarrow> Inr data))"

definition save_data :: "json_dump \<Rightarrow> filesystem \<Rightarrow> string \<Rightarrow> pydict list \<Rightarrow> filesystem" where
  "save_data dump fs file_name data =
     (let path = os_path_join DATA_DIR file_name
      in fs(path \<mapsto> dump data))"

section \<open>The classes \<^verbatim>\<open>ReportedItem\<close> and \<^verbatim>\<open>Claim\<close>\<close>

text \<open>
  Both constructors draw \<^verbatim>\<open>random.randint(1000, 9999)\<close>; the number drawn is the argument
  \<open>r\<close>.  The value is the object's \<^verbatim>\<open>__dict__\<close>, its attributes in assignment order.
\<close>

definition ReportedItem :: "int \<Rightarrow> pyval \<Rightarrow> pyval \<Rightarrow> pyval \<Rightarrow> pyval \<Rightarrow> pydict" where
  "ReportedItem r name description location item_type =
     [(''item_id'', PStr (''ITEM-'' @ str_int r)),
      (''name'', name),
      (''description'', description),
      (''location'', location),
      (''item_type'', item_type),
      (''status'', PStr ''reported'')]"

definition Claim :: "int \<Rightarrow> pyval \<Rightarrow> pyval \<Rightarrow> pydict" where
  "Claim r user_id item_id =
     [(''claim_id'', PStr (''CLM-'' @ str_int r)),
      (''user_id'', user_id),
      (''item_id'', item_id),
      (''status'', PStr ''pending'')]"

section \<open>The controller \<^verbatim>\<open>DLFSController\<close>\<close>

text \<open>The state: the controller's three lists and the files on disk.\<close>

record dlfs =
  users :: "pydict list"
  items :: "pydict list"
  claims :: "pydict list"
  disk :: filesystem

definition init :: "json_load \<Rightarrow> filesystem \<Rightarrow> py_error + dlfs" where
  "init load fs =
     (case load_data load fs ''users.json'' of
        Inl e \<Rightarrow> Inl e
      | Inr us \<Rightarrow>
          (case load_data load fs ''items.json'' of
             Inl e \<Rightarrow> Inl e
           | Inr its \<Rightarrow>
               (case load_data load fs ''claims.json'' of
                  Inl e \<Rightarrow> Inl e
                | Inr cs \<Rightarrow> Inr \<lparr>users = us, items = its, claims = cs, disk = fs\<rparr>)))"

definition save_all :: "json_dump \<Rightarrow> dlfs \<Rightarrow> dlfs" where
  "save_all dump st =
     (let fs1 = save_data dump (disk st) ''users.json'' (users st);
          fs2 = save_data dump fs1 ''items.json'' (items st);
          fs3 = save_data dump fs2 ''claims.json'' (claims st)
      in st\<lparr>disk := fs3\<rparr>)"

text \<open>\<^verbatim>\<open>login\<close>: the loop over \<^verbatim>\<open>self.users\<close>; \<^verbatim>\<open>and\<close> looks the password up only
  when the email matched.\<close>

fun login_loop :: "pydict list \<Rightarrow> pyval \<Rightarrow> pyval \<Rightarrow> py_error + pydict option" where
  "login_loop [] email password = Inr None"
| "login_loop (user # rest) email password =
     (case getitem user ''email'' of
        Inl e \<Rightarrow> Inl e
      | Inr em \<Rightarrow>
          if py_eq em email then
            (case getitem user ''password'' of
               Inl e \<Rightarrow> Inl e
             | Inr pw \<Rightarrow> if py_eq pw password then Inr (Some user)
                         else login_loop rest email password)
          else login_loop rest email password)"

definition login :: "dlfs \<Rightarrow> pyval \<Rightarrow> pyval \<Rightarrow> py_error + pydict option" where
  "login st email password = login_loop (users st) email password"

definition report_item ::
  "json_dump \<Rightarrow> dlfs \<Rightarrow> int \<Rightarrow> pyval \<Rightarrow> pyval \<Rightarrow> pyval \<Rightarrow> pyval \<Rightarrow> pyval \<Rightarrow>
     (py_error + pyval) \<times> dlfs" where
  "report_item dump st r name description location item_type user_id =
     (let item = ReportedItem r name description location item_type;
          st1 = st\<lparr>items := items st @ [item]\<rparr>;
          st2 = save_all dump st1
      in (getattr item ''item_id'', st2))"

text \<open>\<^verbatim>\<open>search_items\<close>: the list comprehension; \<^verbatim>\<open>item["name"]\<close> raises on a missing key,
  \<^verbatim>\<open>.lower()\<close> on a value that is not a string.\<close>

fun search_loop :: "pydict list \<Rightarrow> string \<Rightarrow> py_error + pydict list" where
  "search_loop [] keyword = Inr []"
| "search_loop (item # rest) keyword =
     (case getitem item ''name'' of
        Inl e \<Rightarrow> Inl e
      | Inr (PStr s) \<Rightarrow>
          (case search_loop rest keyword of
             Inl e \<Rightarrow> Inl e
           | Inr found \<Rightarrow>
               Inr (if str_contains (py_lower keyword) (py_lower s) then item # found else found))
      | Inr _ \<Rightarrow> Inl AttributeError)"

definition search_items :: "dlfs \<Rightarrow> string \<Rightarrow> py_error + pydict list" where
  "search_items st keyword = search_loop (items st) keyword"

definition claim_item ::
  "json_dump \<Rightarrow> dlfs \<Rightarrow> int \<Rightarrow> pyval \<Rightarrow> pyval \<Rightarrow> (py_error + pyval) \<times> dlfs" where
  "claim_item dump st r user_id item_id =
     (let claim = Claim r user_id item_id;
          st1 = st\<lparr>claims := claims st @ [claim]\<rparr>;
          st2 = save_all dump st1
      in (getattr claim ''claim_id'', st2))"

text \<open>
  \<^verbatim>\<open>approve_claim\<close>.  The inner loop over \<^verbatim>\<open>self.items\<close> reads \<^verbatim>\<open>item["item_id"]\<close>, then
  \<^verbatim>\<open>claim["item_id"]\<close>, for every item; an exception leaves the items already marked as
  they are.  The outer loop stops at the first claim whose id matches; \<open>seen\<close> are the claims
  already passed.
\<close>

fun mark_items :: "pydict \<Rightarrow> pydict list \<Rightarrow> (py_error + unit) \<times> pydict list" where
  "mark_items claim [] = (Inr (), [])"
| "mark_items claim (item # rest) =
     (case getitem item ''item_id'' of
        Inl e \<Rightarrow> (Inl e, item # rest)
      | Inr a \<Rightarrow>
          (case getitem claim ''item_id'' of
             Inl e \<Rightarrow> (Inl e, item # rest)
           | Inr b \<Rightarrow>
               (let item' = (if py_eq a b then setitem item ''status'' (PStr ''claimed'') else item);
                    (r, rest') = mark_items claim rest
                in (r, item' # rest'))))"

fun approve_loop ::
  "json_dump \<Rightarrow> dlfs \<Rightarrow> pydict list \<Rightarrow> pydict list \<Rightarrow> pyval \<Rightarrow> (py_error + bool) \<times> dlfs" where
  "approve_loop dump st seen [] claim_id = (Inr False, st)"
| "approve_loop dump st seen (claim # rest) claim_id =
     (case getitem claim ''claim_id'' of
        Inl e \<Rightarrow> (Inl e, st)
      | Inr c \<Rightarrow>
          if py_eq c claim_id then
            (let claim' = setitem claim ''status'' (PStr ''approved'');
                 st1 = st\<lparr>claims := seen @ claim' # rest\<rparr>;
                 (r, items') = mark_items claim' (items st1);
                 st2 = st1\<lparr>items := items'\<rparr>
             in case r of
                  Inl e \<Rightarrow> (Inl e, st2)
                | Inr u \<Rightarrow> (Inr True, save_all dump st2))
          else approve_loop dump st (seen @ [claim]) rest claim_id)"

definition approve_claim :: "json_dump \<Rightarrow> dlfs \<Rightarrow> pyval \<Rightarrow> (py_error + bool) \<times> dlfs" where
  "approve_claim dump st claim_id = approve_loop dump st [] (claims st) claim_id"

section \<open>A JSON printer and reader for flat records\<close>

text \<open>
  The functions above take \<^verbatim>\<open>json.dump\<close> and \<^verbatim>\<open>json.load\<close> as parameters.  This section
  gives one concrete pair.  \<open>json_dumps\<close> writes the text of
  \<^verbatim>\<open>json.dumps(data, indent=4)\<close> for a list of flat records.  \<open>json_loads\<close> reads a JSON
  array of flat objects: it reports \<^verbatim>\<open>JSONDecodeError\<close> for text that is not JSON, and also
  for JSON of any other shape, which is outside the model.
\<close>

definition quote_char :: char where
  "quote_char = CHR 0x22"

definition backslash :: char where
  "backslash = CHR 0x5C"

definition newline :: char where
  "newline = CHR 0x0A"

definition hex_digit :: "nat \<Rightarrow> char" where
  "hex_digit d = ''0123456789abcdef'' ! d"

text \<open>With \<^verbatim>\<open>ensure_ascii\<close>, every character outside the printable ASCII range is escaped,
  and so are the quote and the backslash.\<close>

definition escape_char :: "char \<Rightarrow> string" where
  "escape_char c =
     (let n = (of_char c :: nat)
      in if c = quote_char then [backslash, quote_char]
         else if c = backslash then [backslash, backslash]
         else if c = CHR 0x0A then [backslash, CHR ''n'']
         else if c = CHR 0x0D then [backslash, CHR ''r'']
         else if c = CHR 0x09 then [backslash, CHR ''t'']
         else if c = CHR 0x08 then [backslash, CHR ''b'']
         else if c = CHR 0x0C then [backslash, CHR ''f'']
         else if 32 \<le> n \<and> n \<le> 126 then [c]
         else [backslash, CHR ''u'', CHR ''0'', CHR ''0'', hex_digit (n div 16), hex_digit (n mod 16)])"

definition json_string :: "string \<Rightarrow> string" where
  "json_string s = quote_char # concat (map escape_char s) @ [quote_char]"

fun json_scalar :: "pyval \<Rightarrow> string" where
  "json_scalar PNone = ''null''"
| "json_scalar (PBool b) = (if b then ''true'' else ''false'')"
| "json_scalar (PInt n) = str_int n"
| "json_scalar (PStr s) = json_string s"

fun join :: "string \<Rightarrow> string list \<Rightarrow> string" where
  "join sep [] = []"
| "join sep [x] = x"
| "join sep (x # y # ys) = x @ sep @ join sep (y # ys)"

definition json_member :: "string \<times> pyval \<Rightarrow> string" where
  "json_member kv = replicate 8 CHR '' '' @ json_string (fst kv) @ '': '' @ json_scalar (snd kv)"

definition json_object :: "pydict \<Rightarrow> string" where
  "json_object d =
     (if d = [] then ''{}''
      else ''{'' @ [newline] @ join ('','' @ [newline]) (map json_member d)
           @ [newline] @ replicate 4 CHR '' '' @ ''}'')"

definition json_dumps :: json_dump where
  "json_dumps data =
     (if data = [] then ''[]''
      else ''['' @ [newline]
           @ join ('','' @ [newline]) (map (\<lambda>d. replicate 4 CHR '' '' @ json_object d) data)
           @ [newline] @ '']'')"

text \<open>The reader: a lexer over the characters (its first argument holds the string literal
  being read, if any), then an automaton over the tokens.\<close>

datatype token = LBracket | RBracket | LBrace | RBrace | Comma | Colon | Scalar pyval

definition is_ws :: "char \<Rightarrow> bool" where
  "is_ws c = (c = CHR '' '' \<or> c = newline \<or> c = CHR 0x0D \<or> c = CHR 0x09)"

definition is_digit :: "char \<Rightarrow> bool" where
  "is_digit c = (48 \<le> (of_char c :: nat) \<and> (of_char c :: nat) \<le> 57)"

definition digits_val :: "string \<Rightarrow> nat" where
  "digits_val ds = foldl (\<lambda>a c. 10 * a + (of_char c - 48)) 0 ds"

definition hex_val :: "char \<Rightarrow> nat option" where
  "hex_val c =
     (let n = (of_char c :: nat)
      in if 48 \<le> n \<and> n \<le> 57 then Some (n - 48)
         else if 97 \<le> n \<and> n \<le> 102 then Some (n - 87)
         else if 65 \<le> n \<and> n \<le> 70 then Some (n - 55)
         else None)"

definition unescape :: "char \<Rightarrow> char option" where
  "unescape e =
     (if e = quote_char \<or> e = backslash \<or> e = CHR ''/'' then Some e
      else if e = CHR ''n'' then Some (CHR 0x0A)
      else if e = CHR ''r'' then Some (CHR 0x0D)
      else if e = CHR ''t'' then Some (CHR 0x09)
      else if e = CHR ''b'' then Some (CHR 0x08)
      else if e = CHR ''f'' then Some (CHR 0x0C)
      else None)"

definition push :: "token \<Rightarrow> token list option \<Rightarrow> token list option" where
  "push t r = map_option (Cons t) r"

definition number_token :: "bool \<Rightarrow> string \<Rightarrow> string \<Rightarrow> token option" where
  "number_token neg ds rest =
     (if ds = [] \<or> (1 < length ds \<and> hd ds = CHR ''0'')
         \<or> (rest \<noteq> [] \<and> hd rest \<in> set ''.eE'')
      then None
      else Some (Scalar (PInt (if neg then - int (digits_val ds) else int (digits_val ds)))))"

function lex :: "string option \<Rightarrow> string \<Rightarrow> token list option" where
  "lex None [] = Some []"
| "lex (Some acc) [] = None"
| "lex (Some acc) (c # cs) =
     (if c = quote_char then push (Scalar (PStr acc)) (lex None cs)
      else if c = backslash then
        (case cs of
           [] \<Rightarrow> None
         | e # cs1 \<Rightarrow>
             if e = CHR ''u'' then
               (case cs1 of
                  a # b # x # y # cs2 \<Rightarrow>
                    (if a = CHR ''0'' \<and> b = CHR ''0'' then
                       (case (hex_val x, hex_val y) of
                          (Some h, Some l) \<Rightarrow> lex (Some (acc @ [char_of (16 * h + l)])) cs2
                        | _ \<Rightarrow> None)
                     else None)
                | _ \<Rightarrow> None)
             else
               (case unescape e of
                  None \<Rightarrow> None
                | Some u \<Rightarrow> lex (Some (acc @ [u])) cs1))
      else if (of_char c :: nat) < 32 then None
      else lex (Some (acc @ [c])) cs)"
| "lex None (c # cs) =
     (if is_ws c then lex None cs
      else if c = quote_char then lex (Some []) cs
      else if c = CHR ''['' then push LBracket (lex None cs)
      else if c = CHR '']'' then push RBracket (lex None cs)
      else if c = CHR ''{'' then push LBrace (lex None cs)
      else if c = CHR ''}'' then push RBrace (lex None cs)
      else if c = CHR '','' then push Comma (lex None cs)
      else if c = CHR '':'' then push Colon (lex None cs)
      else if prefix ''null'' (c # cs) then push (Scalar PNone) (lex None (drop 3 cs))
      else if prefix ''true'' (c # cs) then push (Scalar (PBool True)) (lex None (drop 3 cs))
      else if prefix ''false'' (c # cs) then push (Scalar (PBool False)) (lex None (drop 4 cs))
      else
        (case number_token (c = CHR ''-'')
                (if c = CHR ''-'' then takeWhile is_digit cs else c # takeWhile is_digit cs)
                (dropWhile is_digit cs) of
           None \<Rightarrow> None
         | Some t \<Rightarrow> if c = CHR ''-'' \<or> is_digit c then push t (lex None (dropWhile is_digit cs)) else None))"
  by pat_completeness auto
termination
  by (relation "measure (\<lambda>(m, s). length s)")
     (simp_all add: le_imp_less_Suc length_dropWhile_le)

datatype pstate =
    AtStart
  | AfterOpen
  | ExpectObject "pydict list"
  | AfterBrace "pydict list"
  | ExpectKey "pydict list" pydict
  | ExpectColon "pydict list" pydict string
  | ExpectValue "pydict list" pydict string
  | AfterMember "pydict list" pydict
  | AfterObject "pydict list"
  | Done "pydict list"

fun parse :: "pstate \<Rightarrow> token list \<Rightarrow> pydict list option" where
  "parse st [] = (case st of Done acc \<Rightarrow> Some acc | _ \<Rightarrow> None)"
| "parse st (t # ts) =
     (case st of
        AtStart \<Rightarrow> if t = LBracket then parse AfterOpen ts else None
      | AfterOpen \<Rightarrow>
          if t = RBracket then parse (Done []) ts
          else if t = LBrace then parse (AfterBrace []) ts else None
      | ExpectObject acc \<Rightarrow> if t = LBrace then parse (AfterBrace acc) ts else None
      | AfterBrace acc \<Rightarrow>
          (case t of
             RBrace \<Rightarrow> parse (AfterObject (acc @ [[]])) ts
           | Scalar (PStr k) \<Rightarrow> parse (ExpectColon acc [] k) ts
           | _ \<Rightarrow> None)
      | ExpectKey acc d \<Rightarrow>
          (case t of Scalar (PStr k) \<Rightarrow> parse (ExpectColon acc d k) ts | _ \<Rightarrow> None)
      | ExpectColon acc d k \<Rightarrow> if t = Colon then parse (ExpectValue acc d k) ts else None
      | ExpectValue acc d k \<Rightarrow>
          (case t of Scalar v \<Rightarrow> parse (AfterMember acc (setitem d k v)) ts | _ \<Rightarrow> None)
      | AfterMember acc d \<Rightarrow>
          if t = Comma then parse (ExpectKey acc d) ts
          else if t = RBrace then parse (AfterObject (acc @ [d])) ts else None
      | AfterObject acc \<Rightarrow>
          if t = Comma then parse (ExpectObject acc) ts
          else if t = RBracket then parse (Done acc) ts else None
      | Done acc \<Rightarrow> None)"

definition json_loads :: json_load where
  "json_loads s =
     (case lex None s of
        None \<Rightarrow> Inl JSONDecodeError
      | Some ts \<Rightarrow>
          (case parse AtStart ts of
             None \<Rightarrow> Inl JSONDecodeError
           | Some data \<Rightarrow> Inr data))"


text \<open>
  \<^verbatim>\<open>open(path, "r")\<close> opens the file in text mode: \<^verbatim>\<open>json.load\<close> reads the file's bytes
  decoded as UTF-8 (the default encoding wherever the locale is UTF-8), before it parses
  them.  Here a \<^typ>\<open>char\<close> of the file is a byte.  Below 128 a byte is its own code point;
  \<^verbatim>\<open>C2\<close> and \<^verbatim>\<open>C3\<close> with a continuation byte give the code points 128 to 255; the bytes
  \<^verbatim>\<open>80\<close>--\<^verbatim>\<open>C1\<close> and \<^verbatim>\<open>F5\<close>--\<^verbatim>\<open>FF\<close> start no character, and decoding raises
  \<^verbatim>\<open>UnicodeDecodeError\<close>.  The other lead bytes belong to code points from 256 on, outside
  the model.  The text \<open>json_dumps\<close> writes is ASCII, hence its own encoding.
\<close>

fun utf8_decode :: "string \<Rightarrow> py_error + string" where
  "utf8_decode [] = Inr []"
| "utf8_decode (b # bs) =
     (let n = (of_char b :: nat)
      in if n < 128 then
           (case utf8_decode bs of Inl e \<Rightarrow> Inl e | Inr s \<Rightarrow> Inr (b # s))
         else if n = 194 \<or> n = 195 then
           (case bs of
              [] \<Rightarrow> Inl UnicodeDecodeError
            | c # bs' \<Rightarrow>
                (let m = (of_char c :: nat)
                 in if 128 \<le> m \<and> m < 192 then
                      (case utf8_decode bs' of
                         Inl e \<Rightarrow> Inl e
                       | Inr s \<Rightarrow> Inr (char_of ((n - 192) * 64 + (m - 128)) # s))
                    else Inl UnicodeDecodeError))
         else if 196 \<le> n \<and> n \<le> 244 then Inl (OtherError ''code point outside the model'')
         else Inl UnicodeDecodeError)"

definition json_load_file :: json_load where
  "json_load_file bytes =
     (case utf8_decode bytes of
        Inl e \<Rightarrow> Inl e
      | Inr text \<Rightarrow> json_loads text)"

text \<open>The tokens of the text that \<open>json_dumps\<close> writes, and what follows a value in it.\<close>

definition push_all :: "token list \<Rightarrow> token list option \<Rightarrow> token list option" where
  "push_all ts r = map_option ((@) ts) r"

definition ends_value :: "string \<Rightarrow> bool" where
  "ends_value rest = (\<exists>t. rest = CHR '','' # t \<or> rest = newline # t)"

definition member_tokens :: "string \<times> pyval \<Rightarrow> token list" where
  "member_tokens kv = [Scalar (PStr (fst kv)), Colon, Scalar (snd kv)]"

fun separated :: "token list list \<Rightarrow> token list" where
  "separated [] = []"
| "separated [x] = x"
| "separated (x # y # ys) = x @ Comma # separated (y # ys)"

definition object_tokens :: "pydict \<Rightarrow> token list" where
  "object_tokens d = LBrace # separated (map member_tokens d) @ [RBrace]"

definition tokens :: "pydict list \<Rightarrow> token list" where
  "tokens data = LBracket # separated (map object_tokens data) @ [RBracket]"

section \<open>Predicates of the specification\<close>

text \<open>A record has a field.\<close>

definition has_key :: "pydict \<Rightarrow> string \<Rightarrow> bool" where
  "has_key d k = (k \<in> set (map fst d))"

text \<open>A user record whose email and password both equal the given ones, by Python's \<^verbatim>\<open>==\<close>.\<close>

definition credentials_match :: "pyval \<Rightarrow> pyval \<Rightarrow> pydict \<Rightarrow> bool" where
  "credentials_match email password user =
     (case (getitem user ''email'', getitem user ''password'') of
        (Inr em, Inr pw) \<Rightarrow> py_eq em email \<and> py_eq pw password
      | _ \<Rightarrow> False)"

text \<open>An item whose name, lower-cased, has the lower-cased keyword as a contiguous run:
  \<^term>\<open>sublist xs ys\<close> says \<open>ys = ps @ xs @ ss\<close> for some \<open>ps\<close> and \<open>ss\<close>.\<close>

definition name_contains :: "string \<Rightarrow> pydict \<Rightarrow> bool" where
  "name_contains keyword item =
     (case getitem item ''name'' of
        Inr (PStr s) \<Rightarrow> sublist (py_lower keyword) (py_lower s)
      | _ \<Rightarrow> False)"

text \<open>A claim whose \<^verbatim>\<open>claim_id\<close> equals the given id; an item whose \<^verbatim>\<open>item_id\<close> equals the
  claim's; the item as approval leaves it.\<close>

definition claim_matches :: "pyval \<Rightarrow> pydict \<Rightarrow> bool" where
  "claim_matches claim_id claim =
     (case getitem claim ''claim_id'' of Inr c \<Rightarrow> py_eq c claim_id | Inl e \<Rightarrow> False)"

definition same_item :: "pydict \<Rightarrow> pydict \<Rightarrow> bool" where
  "same_item claim item =
     (case (getitem item ''item_id'', getitem claim ''item_id'') of
        (Inr a, Inr b) \<Rightarrow> py_eq a b
      | _ \<Rightarrow> False)"

definition mark_claimed :: "pydict \<Rightarrow> pydict \<Rightarrow> pydict" where
  "mark_claimed claim item =
     (if same_item claim item then setitem item ''status'' (PStr ''claimed'') else item)"

text \<open>Each of the three files holds what \<^verbatim>\<open>json.dump\<close> writes for the list in memory.\<close>

definition persisted :: "json_dump \<Rightarrow> dlfs \<Rightarrow> bool" where
  "persisted dump st =
     (disk st ''data/users.json'' = Some (dump (users st))
      \<and> disk st ''data/items.json'' = Some (dump (items st))
      \<and> disk st ''data/claims.json'' = Some (dump (claims st)))"

section \<open>Example data\<close>

text \<open>The administrator that the program writes to \<^verbatim>\<open>users.json\<close> on its first run, and a
  store in which two claims share an id and two items share an id.\<close>

definition admin_user :: pydict where
  "admin_user =
     [(''id'', PInt 1), (''name'', PStr ''Admin''), (''email'', PStr ''admin@dlfs.com''),
      (''password'', PStr ''admin123''), (''role'', PStr ''admin'')]"

definition ex_item :: "string \<Rightarrow> string \<Rightarrow> string \<Rightarrow> pydict" where
  "ex_item item_id name status =
     [(''item_id'', PStr item_id), (''name'', PStr name), (''description'', PStr ''leather''),
      (''location'', PStr ''Library''), (''item_type'', PStr ''found''), (''status'', PStr status)]"

definition ex_claim :: "string \<Rightarrow> string \<Rightarrow> string \<Rightarrow> pydict" where
  "ex_claim claim_id item_id status =
     [(''claim_id'', PStr claim_id), (''user_id'', PInt 1), (''item_id'', PStr item_id),
      (''status'', PStr status)]"

definition ex_store :: dlfs where
  "ex_store =
     \<lparr>users = [admin_user],
      items = [ex_item ''ITEM-1234'' ''Black Wallet'' ''reported'',
               ex_item ''ITEM-2222'' ''Umbrella'' ''reported'',
               ex_item ''ITEM-1234'' ''Wallet Chain'' ''reported''],
      claims = [ex_claim ''CLM-5678'' ''ITEM-1234'' ''pending'',
                ex_claim ''CLM-5678'' ''ITEM-2222'' ''pending''],
      disk = Map.empty\<rparr>"

section \<open>Dictionaries, strings and files\<close>

lemma getitem_setitem_same: "getitem (setitem d k v) k = Inr v"
  by (induction d) (auto simp: getitem_def)

lemma getitem_setitem_other: "k' \<noteq> k \<Longrightarrow> getitem (setitem d k v) k' = getitem d k'"
  by (induction d) (auto simp: getitem_def)

lemma has_key_getitem: "has_key d k \<Longrightarrow> \<exists>v. getitem d k = Inr v"
  unfolding has_key_def getitem_def
  by (cases "map_of d k") (auto simp: map_of_eq_None_iff)

lemma has_key_setitem: "has_key (setitem d k v) k' = (k' = k \<or> has_key d k')"
  by (induction d) (auto simp: has_key_def)

lemma str_contains_sublist: "str_contains sub s = sublist sub s"
  by (induction s) (auto simp: sublist_Cons_right)

lemma data_path: "\<not> prefix ''/'' f \<Longrightarrow> os_path_join DATA_DIR f = ''data/'' @ f"
  by (simp add: os_path_join_def DATA_DIR_def suffix_to_prefix)

text \<open>What \<^verbatim>\<open>load_data\<close> does with an exception of \<^verbatim>\<open>json.load\<close>: \<^verbatim>\<open>JSONDecodeError\<close> becomes
  the empty list, every other exception reaches the caller.\<close>

lemma load_data_decode_error:
  assumes "fs (os_path_join DATA_DIR file_name) = Some content"
    and "load content = Inl JSONDecodeError"
  shows "load_data load fs file_name = Inr []"
  using assms by (simp add: load_data_def Let_def)

lemma load_data_other_error:
  assumes "fs (os_path_join DATA_DIR file_name) = Some content"
    and "load content = Inl e"
    and "e \<noteq> JSONDecodeError"
  shows "load_data load fs file_name = Inl e"
  using assms by (cases e) (simp_all add: load_data_def Let_def)

lemma load_data_decode_error_example:
  "load_data json_load_file [''data/items.json'' \<mapsto> ''[{oops''] ''items.json'' = Inr []"
proof -
  have found: "[''data/items.json'' \<mapsto> ''[{oops''] (os_path_join DATA_DIR ''items.json'')
                 = Some ''[{oops''"
    by (simp add: data_path)
  have raised: "json_load_file ''[{oops'' = Inl JSONDecodeError"
    by code_simp
  from found raised show ?thesis
    by (rule load_data_decode_error)
qed

lemma utf8_decode_ascii:
  "\<forall>c\<in>set s. (of_char c :: nat) < 128 \<Longrightarrow> utf8_decode s = Inr s"
  by (induction s) simp_all

lemma save_all_disk:
  "disk (save_all dump st) =
     (disk st)(''data/users.json'' \<mapsto> dump (users st),
               ''data/items.json'' \<mapsto> dump (items st),
               ''data/claims.json'' \<mapsto> dump (claims st))"
  by (simp add: save_all_def save_data_def data_path)

lemma save_all_fields:
  "users (save_all dump st) = users st"
  "items (save_all dump st) = items st"
  "claims (save_all dump st) = claims st"
  by (simp_all add: save_all_def)

lemma persisted_save_all: "persisted dump (save_all dump st)"
  by (simp add: persisted_def save_all_disk save_all_fields)

section \<open>The reader reads back what the printer writes\<close>

lemma push_all_simps:
  "push_all [] r = r"
  "push t (push_all ts r) = push_all (t # ts) r"
  "push_all ts (push_all us r) = push_all (ts @ us) r"
  "push t r = push_all [t] r"
  "push_all ts (Some us) = Some (ts @ us)"
  by (cases r; simp add: push_all_def push_def)+

lemma hex_round: "\<forall>d\<in>{0..<16}. hex_val (hex_digit d) = Some d"
  by code_simp

lemma hex_val_hex_digit: "d < 16 \<Longrightarrow> hex_val (hex_digit d) = Some d"
  using hex_round by simp

lemma lex_escape: "lex (Some acc) (escape_char c @ s) = lex (Some (acc @ [c])) s"
proof -
  let ?n = "of_char c :: nat"
  have lt: "?n div 16 < 16" "?n mod 16 < 16"
    using nat_of_char_less_256[of c] by presburger+
  have whole: "char_of (16 * (?n div 16) + ?n mod 16) = c"
    by simp
  consider (special) "c = quote_char \<or> c = backslash \<or> c = CHR 0x0A \<or> c = CHR 0x0D
        \<or> c = CHR 0x09 \<or> c = CHR 0x08 \<or> c = CHR 0x0C"
    | (plain) "c \<noteq> quote_char" "c \<noteq> backslash" "32 \<le> ?n" "?n \<le> 126"
    | (coded) "c \<noteq> quote_char" "c \<noteq> backslash" "c \<noteq> CHR 0x0A" "c \<noteq> CHR 0x0D"
        "c \<noteq> CHR 0x09" "c \<noteq> CHR 0x08" "c \<noteq> CHR 0x0C" "\<not> (32 \<le> ?n \<and> ?n \<le> 126)"
    by blast
  then show ?thesis
  proof cases
    case special
    then show ?thesis
      by (auto simp: escape_char_def quote_char_def backslash_def unescape_def)
  next
    case plain
    then have "escape_char c = [c]"
      by (auto simp: escape_char_def Let_def)
    with plain show ?thesis by simp
  next
    case coded
    then have e: "escape_char c =
        [backslash, CHR ''u'', CHR ''0'', CHR ''0'', hex_digit (?n div 16), hex_digit (?n mod 16)]"
      by (simp add: escape_char_def Let_def)
    show ?thesis
      unfolding e
      by (simp add: hex_val_hex_digit lt whole quote_char_def backslash_def)
  qed
qed

lemma lex_escaped: "lex (Some acc) (concat (map escape_char s) @ t) = lex (Some (acc @ s)) t"
  by (induction s arbitrary: acc) (simp_all add: lex_escape)

lemma lex_json_string:
  "lex None (json_string s @ rest) = push (Scalar (PStr s)) (lex None rest)"
  by (simp add: json_string_def lex_escaped quote_char_def is_ws_def newline_def)

lemma digit_facts:
  "\<forall>d\<in>{0..<10}. is_digit (digit_char d) \<and> (of_char (digit_char d) :: nat) - 48 = d
      \<and> (0 < d \<longleftrightarrow> digit_char d \<noteq> CHR ''0'')"
  by code_simp

lemma is_digit_digit_char: "d < 10 \<Longrightarrow> is_digit (digit_char d)"
  using digit_facts by simp

lemma val_digit_char: "d < 10 \<Longrightarrow> (of_char (digit_char d) :: nat) - 48 = d"
  using digit_facts by simp

lemma digit_char_zero: "d < 10 \<Longrightarrow> 0 < d \<Longrightarrow> digit_char d \<noteq> CHR ''0''"
  using digit_facts by simp

lemma str_nat_digits: "\<forall>c\<in>set (str_nat n). is_digit c"
proof (induction n rule: str_nat.induct)
  case (1 n)
  show ?case
  proof (cases "n < 10")
    case True
    then show ?thesis by (subst str_nat.simps) (simp add: is_digit_digit_char)
  next
    case False
    with 1 show ?thesis by (subst str_nat.simps) (simp add: is_digit_digit_char)
  qed
qed

lemma str_nat_nonempty: "str_nat n \<noteq> []"
  by (subst str_nat.simps) simp

lemma digits_val_snoc: "digits_val (ds @ [c]) = 10 * digits_val ds + (of_char c - 48)"
  by (simp add: digits_val_def)

lemma digits_val_str_nat: "digits_val (str_nat n) = n"
proof (induction n rule: str_nat.induct)
  case (1 n)
  show ?case
  proof (cases "n < 10")
    case True
    then show ?thesis
      by (subst str_nat.simps) (simp add: digits_val_def val_digit_char)
  next
    case False
    with 1 have "digits_val (str_nat (n div 10)) = n div 10" by simp
    with False show ?thesis
      by (subst str_nat.simps) (simp add: digits_val_snoc val_digit_char)
  qed
qed

lemma str_nat_leading: "0 < n \<Longrightarrow> hd (str_nat n) \<noteq> CHR ''0''"
proof (induction n rule: str_nat.induct)
  case (1 n)
  show ?case
  proof (cases "n < 10")
    case True
    with 1 show ?thesis
      by (subst str_nat.simps) (simp add: digit_char_zero)
  next
    case False
    with 1 have "hd (str_nat (n div 10)) \<noteq> CHR ''0''" by simp
    with False show ?thesis
      by (subst str_nat.simps) (simp add: str_nat_nonempty)
  qed
qed

lemma str_nat_no_leading_zero: "1 < length (str_nat n) \<Longrightarrow> hd (str_nat n) \<noteq> CHR ''0''"
proof (cases "n < 10")
  case True
  assume "1 < length (str_nat n)"
  with True show ?thesis by (subst (asm) str_nat.simps) simp
next
  case False
  then show ?thesis by (simp add: str_nat_leading)
qed

lemma ends_value_facts:
  assumes "ends_value rest"
  shows "takeWhile is_digit rest = []" "dropWhile is_digit rest = rest"
    "\<not> (rest \<noteq> [] \<and> hd rest \<in> set ''.eE'')"
  using assms by (auto simp: ends_value_def is_digit_def newline_def)

lemma is_digit_not_special:
  assumes "is_digit c"
  shows "\<not> is_ws c" "c \<noteq> quote_char" "c \<noteq> CHR ''[''" "c \<noteq> CHR '']''" "c \<noteq> CHR ''{''"
    "c \<noteq> CHR ''}''" "c \<noteq> CHR '',''" "c \<noteq> CHR '':''" "c \<noteq> CHR ''n''" "c \<noteq> CHR ''t''"
    "c \<noteq> CHR ''f''" "c \<noteq> CHR ''-''"
  using assms by (auto simp: is_digit_def is_ws_def quote_char_def newline_def)

lemma lex_digits:
  assumes ne: "ds \<noteq> []"
    and dig: "\<forall>c\<in>set ds. is_digit c"
    and lead: "\<not> (1 < length ds \<and> hd ds = CHR ''0'')"
    and rest: "ends_value rest"
  shows "lex None (ds @ rest) = push (Scalar (PInt (int (digits_val ds)))) (lex None rest)"
proof -
  from ne obtain c ds' where ds: "ds = c # ds'" by (cases ds) auto
  with dig have c: "is_digit c" and ds': "\<forall>x\<in>set ds'. is_digit x" by auto
  have tw: "takeWhile is_digit (ds' @ rest) = ds'"
    using ds' ends_value_facts(1)[OF rest] by simp
  have dw: "dropWhile is_digit (ds' @ rest) = rest"
    using ds' ends_value_facts(2)[OF rest] by simp
  have nt: "number_token False (c # ds') rest
              = Some (Scalar (PInt (int (digits_val (c # ds')))))"
    using lead ends_value_facts(3)[OF rest] ds by (simp add: number_token_def)
  show ?thesis
    unfolding ds using is_digit_not_special[OF c] c
    by (simp add: tw dw nt)
qed

lemma lex_minus_digits:
  assumes ne: "ds \<noteq> []"
    and dig: "\<forall>c\<in>set ds. is_digit c"
    and lead: "\<not> (1 < length ds \<and> hd ds = CHR ''0'')"
    and rest: "ends_value rest"
  shows "lex None (CHR ''-'' # ds @ rest)
           = push (Scalar (PInt (- int (digits_val ds)))) (lex None rest)"
proof -
  have tw: "takeWhile is_digit (ds @ rest) = ds"
    using dig ends_value_facts(1)[OF rest] by simp
  have dw: "dropWhile is_digit (ds @ rest) = rest"
    using dig ends_value_facts(2)[OF rest] by simp
  have nt: "number_token True ds rest = Some (Scalar (PInt (- int (digits_val ds))))"
    using ne lead ends_value_facts(3)[OF rest] by (simp add: number_token_def)
  show ?thesis
    by (simp add: tw dw nt is_ws_def quote_char_def newline_def)
qed

lemma lex_str_int:
  assumes "ends_value rest"
  shows "lex None (str_int i @ rest) = push (Scalar (PInt i)) (lex None rest)"
proof (cases "i < 0")
  case True
  then show ?thesis
    using lex_minus_digits[OF str_nat_nonempty str_nat_digits _ assms, of "nat (- i)"]
      str_nat_no_leading_zero[of "nat (- i)"]
    by (auto simp: str_int_def digits_val_str_nat)
next
  case False
  then show ?thesis
    using lex_digits[OF str_nat_nonempty str_nat_digits _ assms, of "nat i"]
      str_nat_no_leading_zero[of "nat i"]
    by (auto simp: str_int_def digits_val_str_nat)
qed

lemma lex_json_scalar:
  assumes "ends_value rest"
  shows "lex None (json_scalar v @ rest) = push (Scalar v) (lex None rest)"
proof (cases v)
  case PNone
  then show ?thesis by (simp add: is_ws_def quote_char_def newline_def)
next
  case (PBool b)
  then show ?thesis by (cases b) (simp_all add: is_ws_def quote_char_def newline_def)
next
  case (PInt n)
  then show ?thesis by (simp add: lex_str_int[OF assms])
next
  case (PStr s)
  then show ?thesis by (simp add: lex_json_string)
qed

lemma lex_punct:
  "lex None (CHR ''['' # s) = push LBracket (lex None s)"
  "lex None (CHR '']'' # s) = push RBracket (lex None s)"
  "lex None (CHR ''{'' # s) = push LBrace (lex None s)"
  "lex None (CHR ''}'' # s) = push RBrace (lex None s)"
  "lex None (CHR '','' # s) = push Comma (lex None s)"
  "lex None (CHR '':'' # s) = push Colon (lex None s)"
  "lex None (CHR '' '' # s) = lex None s"
  "lex None (newline # s) = lex None s"
  "lex None [] = Some []"
  by (simp_all add: is_ws_def quote_char_def newline_def)

declare lex.simps [simp del]

lemma lex_spaces: "lex None (replicate n CHR '' '' @ s) = lex None s"
  by (induction n) (simp_all add: lex_punct)

lemma lex_newline: "lex None (newline # s) = lex None s"
  by (simp add: lex_punct)

lemma lex_member:
  assumes "ends_value rest"
  shows "lex None (json_member kv @ rest) = push_all (member_tokens kv) (lex None rest)"
proof -
  have "lex None (json_member kv @ rest)
        = lex None (json_string (fst kv) @ ('': '' @ json_scalar (snd kv) @ rest))"
    unfolding json_member_def by (simp only: append_assoc lex_spaces)
  also have "\<dots> = push (Scalar (PStr (fst kv))) (lex None ('': '' @ json_scalar (snd kv) @ rest))"
    by (rule lex_json_string)
  also have "lex None ('': '' @ json_scalar (snd kv) @ rest)
             = push Colon (lex None (json_scalar (snd kv) @ rest))"
    by (simp add: lex_punct)
  also have "lex None (json_scalar (snd kv) @ rest) = push (Scalar (snd kv)) (lex None rest)"
    by (rule lex_json_scalar[OF assms])
  finally show ?thesis
    by (simp add: member_tokens_def push_all_simps)
qed

lemma ends_value_comma: "ends_value (CHR '','' # t)"
  and ends_value_newline: "ends_value (newline # t)"
  by (auto simp: ends_value_def)

lemma lex_comma_newline: "lex None ('','' @ [newline] @ s) = push Comma (lex None s)"
  by (simp add: lex_punct)

lemma lex_members:
  assumes "kvs \<noteq> []"
  shows "lex None (join ('','' @ [newline]) (map json_member kvs) @ newline # rest)
           = push_all (separated (map member_tokens kvs)) (lex None rest)"
  using assms
proof (induction kvs rule: list_nonempty_induct)
  case (single kv)
  show ?case
    by (simp add: lex_member[OF ends_value_newline] lex_newline)
next
  case (cons kv kvs)
  then obtain y ys where kvs: "kvs = y # ys" by (cases kvs) auto
  have "lex None (join ('','' @ [newline]) (map json_member (kv # kvs)) @ newline # rest)
        = lex None (json_member kv
            @ (CHR '','' # newline # join ('','' @ [newline]) (map json_member kvs) @ newline # rest))"
    by (simp add: kvs)
  also have "\<dots> = push_all (member_tokens kv)
      (lex None (CHR '','' # newline # join ('','' @ [newline]) (map json_member kvs) @ newline # rest))"
    by (rule lex_member[OF ends_value_comma])
  also have "lex None (CHR '','' # newline # join ('','' @ [newline]) (map json_member kvs) @ newline # rest)
      = push Comma (lex None (join ('','' @ [newline]) (map json_member kvs) @ newline # rest))"
    using lex_comma_newline by simp
  also have "lex None (join ('','' @ [newline]) (map json_member kvs) @ newline # rest)
      = push_all (separated (map member_tokens kvs)) (lex None rest)"
    by (rule cons.IH)
  finally show ?case
    by (simp add: kvs push_all_simps)
qed

lemma lex_object:
  "lex None (json_object d @ rest) = push_all (object_tokens d) (lex None rest)"
proof (cases "d = []")
  case True
  then show ?thesis
    by (simp add: json_object_def object_tokens_def push_all_simps lex_punct)
next
  case False
  have "lex None (json_object d @ rest)
        = push LBrace (lex None (join ('','' @ [newline]) (map json_member d)
              @ newline # (replicate 4 CHR '' '' @ CHR ''}'' # rest)))"
    using False by (simp add: json_object_def lex_punct)
  also have "lex None (join ('','' @ [newline]) (map json_member d)
              @ newline # (replicate 4 CHR '' '' @ CHR ''}'' # rest))
        = push_all (separated (map member_tokens d))
            (lex None (replicate 4 CHR '' '' @ CHR ''}'' # rest))"
    by (rule lex_members[OF False])
  also have "lex None (replicate 4 CHR '' '' @ CHR ''}'' # rest) = push RBrace (lex None rest)"
    unfolding lex_spaces by (simp add: lex_punct)
  finally show ?thesis
    by (simp add: object_tokens_def push_all_simps)
qed

lemma lex_objects:
  assumes "data \<noteq> []"
  shows "lex None (join ('','' @ [newline]) (map (\<lambda>d. replicate 4 CHR '' '' @ json_object d) data)
             @ newline # rest)
           = push_all (separated (map object_tokens data)) (lex None rest)"
  using assms
proof (induction data rule: list_nonempty_induct)
  case (single d)
  have "lex None (replicate 4 CHR '' '' @ json_object d @ newline # rest)
        = push_all (object_tokens d) (lex None rest)"
    unfolding lex_spaces by (simp add: lex_object lex_newline)
  then show ?case by simp
next
  case (cons d ds)
  then obtain y ys where ds: "ds = y # ys" by (cases ds) auto
  let ?tail = "join ('','' @ [newline]) (map (\<lambda>d. replicate 4 CHR '' '' @ json_object d) ds)
                 @ newline # rest"
  have "lex None (join ('','' @ [newline]) (map (\<lambda>d. replicate 4 CHR '' '' @ json_object d) (d # ds))
             @ newline # rest)
        = lex None (replicate 4 CHR '' '' @ json_object d @ (CHR '','' # newline # ?tail))"
    by (simp add: ds)
  also have "\<dots> = push_all (object_tokens d) (lex None (CHR '','' # newline # ?tail))"
    unfolding lex_spaces by (rule lex_object)
  also have "lex None (CHR '','' # newline # ?tail) = push Comma (lex None ?tail)"
    using lex_comma_newline by simp
  also have "lex None ?tail = push_all (separated (map object_tokens ds)) (lex None rest)"
    by (rule cons.IH)
  finally show ?case
    by (simp add: ds push_all_simps)
qed

lemma lex_json_dumps: "lex None (json_dumps data) = Some (tokens data)"
proof (cases "data = []")
  case True
  then show ?thesis
    by (simp add: json_dumps_def tokens_def push_all_simps lex_punct)
next
  case False
  have "lex None (json_dumps data)
        = push LBracket (lex None
            (join ('','' @ [newline]) (map (\<lambda>d. replicate 4 CHR '' '' @ json_object d) data)
               @ newline # '']''))"
    using False by (simp add: json_dumps_def lex_punct)
  also have "lex None
            (join ('','' @ [newline]) (map (\<lambda>d. replicate 4 CHR '' '' @ json_object d) data)
               @ newline # '']'')
        = push_all (separated (map object_tokens data)) (lex None '']'')"
    by (rule lex_objects[OF False])
  also have "lex None '']'' = Some [RBracket]"
    by (simp add: lex_punct push_all_simps)
  finally show ?thesis
    by (simp add: tokens_def push_all_simps)
qed

lemma separated_Cons: "separated (x # xs) = x @ concat (map (\<lambda>y. Comma # y) xs)"
  by (induction xs arbitrary: x) simp_all

lemma setitem_fresh: "k \<notin> fst ` set d \<Longrightarrow> setitem d k v = d @ [(k, v)]"
  by (induction d) auto

lemma parse_members:
  assumes "distinct (map fst (d0 @ kvs))"
  shows "parse (AfterMember acc d0)
           (concat (map (\<lambda>y. Comma # y) (map member_tokens kvs)) @ RBrace # ts)
         = parse (AfterObject (acc @ [d0 @ kvs])) ts"
  using assms
proof (induction kvs arbitrary: d0)
  case Nil
  show ?case by simp
next
  case (Cons kv kvs)
  obtain k v where kv: "kv = (k, v)" by (cases kv)
  from Cons.prems have fresh: "k \<notin> fst ` set d0"
    by (auto simp: kv)
  from Cons.prems have "distinct (map fst ((d0 @ [kv]) @ kvs))"
    by simp
  then have "parse (AfterMember acc (d0 @ [kv]))
           (concat (map (\<lambda>y. Comma # y) (map member_tokens kvs)) @ RBrace # ts)
         = parse (AfterObject (acc @ [(d0 @ [kv]) @ kvs])) ts"
    by (rule Cons.IH)
  moreover have "member_tokens kv = [Scalar (PStr k), Colon, Scalar v]"
    by (simp add: member_tokens_def kv)
  ultimately show ?case
    by (simp add: kv setitem_fresh[OF fresh])
qed

lemma parse_object:
  assumes "distinct (map fst d)"
  shows "parse (AfterBrace acc) (separated (map member_tokens d) @ RBrace # ts)
         = parse (AfterObject (acc @ [d])) ts"
proof (cases d)
  case Nil
  then show ?thesis by simp
next
  case (Cons kv kvs)
  obtain k v where kv: "kv = (k, v)" by (cases kv)
  have "parse (AfterMember acc [kv])
           (concat (map (\<lambda>y. Comma # y) (map member_tokens kvs)) @ RBrace # ts)
         = parse (AfterObject (acc @ [[kv] @ kvs])) ts"
    using assms Cons by (intro parse_members) simp
  moreover have "member_tokens kv = [Scalar (PStr k), Colon, Scalar v]"
    by (simp add: member_tokens_def kv)
  ultimately show ?thesis
    by (simp add: Cons separated_Cons kv)
qed

lemma parse_objects:
  assumes "\<forall>d\<in>set ds. distinct (map fst d)"
  shows "parse (AfterObject acc)
           (concat (map (\<lambda>y. Comma # y) (map object_tokens ds)) @ [RBracket])
         = Some (acc @ ds)"
  using assms
proof (induction ds arbitrary: acc)
  case Nil
  show ?case by simp
next
  case (Cons d ds)
  then have d: "distinct (map fst d)" and IH: "parse (AfterObject (acc @ [d]))
           (concat (map (\<lambda>y. Comma # y) (map object_tokens ds)) @ [RBracket])
         = Some ((acc @ [d]) @ ds)"
    by simp_all
  have "object_tokens d = LBrace # separated (map member_tokens d) @ [RBrace]"
    by (simp add: object_tokens_def)
  with IH show ?case
    by (simp add: parse_object[OF d])
qed

lemma parse_tokens:
  assumes "\<forall>d\<in>set data. distinct (map fst d)"
  shows "parse AtStart (tokens data) = Some data"
proof (cases data)
  case Nil
  then show ?thesis by (simp add: tokens_def)
next
  case (Cons d ds)
  with assms have d: "distinct (map fst d)" and ds: "\<forall>d\<in>set ds. distinct (map fst d)"
    by simp_all
  have "object_tokens d = LBrace # separated (map member_tokens d) @ [RBrace]"
    by (simp add: object_tokens_def)
  with parse_objects[OF ds, of "[d]"] show ?thesis
    by (simp add: Cons tokens_def separated_Cons parse_object[OF d])
qed

lemma json_loads_json_dumps:
  assumes "\<forall>d\<in>set data. distinct (map fst d)"
  shows "json_loads (json_dumps data) = Inr data"
  by (simp add: json_loads_def lex_json_dumps parse_tokens[OF assms])

section \<open>The loops\<close>

lemma login_loop_find:
  "\<forall>u\<in>set us. has_key u ''email'' \<and> has_key u ''password'' \<Longrightarrow>
   login_loop us email password = Inr (find (credentials_match email password) us)"
proof (induction us)
  case Nil
  then show ?case by simp
next
  case (Cons u us)
  then obtain em pw where "getitem u ''email'' = Inr em" "getitem u ''password'' = Inr pw"
    using has_key_getitem by (metis list.set_intros(1))
  with Cons show ?case by (simp add: credentials_match_def)
qed

lemma search_loop_filter:
  "\<forall>it\<in>set its. \<exists>s. getitem it ''name'' = Inr (PStr s) \<Longrightarrow>
   search_loop its keyword = Inr (filter (name_contains keyword) its)"
proof (induction its)
  case Nil
  show ?case by simp
next
  case (Cons it its)
  then obtain s where s: "getitem it ''name'' = Inr (PStr s)" by auto
  from Cons have "search_loop its keyword = Inr (filter (name_contains keyword) its)" by simp
  moreover have "name_contains keyword it = str_contains (py_lower keyword) (py_lower s)"
    using s by (simp add: name_contains_def str_contains_sublist)
  ultimately show ?case using s by simp
qed

lemma name_contains_empty:
  "getitem it ''name'' = Inr (PStr s) \<Longrightarrow> name_contains [] it"
  by (simp add: name_contains_def py_lower_def)

section \<open>Approving a claim\<close>

lemma same_item_approved:
  "same_item (setitem claim ''status'' v) item = same_item claim item"
  by (simp add: same_item_def getitem_setitem_other)

lemma mark_items_map:
  assumes "has_key claim ''item_id''"
    and "\<forall>it\<in>set its. has_key it ''item_id''"
  shows "mark_items claim its = (Inr (), map (mark_claimed claim) its)"
  using assms(2)
proof (induction its)
  case Nil
  show ?case by simp
next
  case (Cons it its)
  obtain b where b: "getitem claim ''item_id'' = Inr b"
    using assms(1) has_key_getitem by blast
  obtain a where a: "getitem it ''item_id'' = Inr a"
    using Cons.prems has_key_getitem by fastforce
  from Cons have "mark_items claim its = (Inr (), map (mark_claimed claim) its)"
    by simp
  with a b show ?case
    by (simp add: mark_claimed_def same_item_def)
qed

lemma approve_loop_found:
  assumes "\<forall>x\<in>set pre. has_key x ''claim_id'' \<and> \<not> claim_matches cid x"
    and "claim_matches cid c"
    and "has_key c ''item_id''"
    and "\<forall>it\<in>set (items st). has_key it ''item_id''"
  shows "approve_loop dump st seen (pre @ c # rest) cid =
           (Inr True,
            save_all dump
              (st\<lparr>claims := seen @ pre @ setitem c ''status'' (PStr ''approved'') # rest,
                  items := map (mark_claimed c) (items st)\<rparr>))"
  using assms(1)
proof (induction pre arbitrary: seen)
  case Nil
  obtain v where v: "getitem c ''claim_id'' = Inr v" "py_eq v cid"
    using assms(2) by (auto simp: claim_matches_def split: sum.splits)
  have k: "has_key (setitem c ''status'' (PStr ''approved'')) ''item_id''"
    using assms(3) by (simp add: has_key_setitem)
  have m: "map (mark_claimed (setitem c ''status'' (PStr ''approved''))) (items st)
           = map (mark_claimed c) (items st)"
    by (simp add: mark_claimed_def same_item_approved)
  show ?case
    using v mark_items_map[OF k assms(4)] m by simp
next
  case (Cons x pre)
  then obtain v where v: "getitem x ''claim_id'' = Inr v" "\<not> py_eq v cid"
    using has_key_getitem[of x "''claim_id''"]
    by (auto simp: claim_matches_def split: sum.splits)
  from Cons have "approve_loop dump st (seen @ [x]) (pre @ c # rest) cid =
           (Inr True,
            save_all dump
              (st\<lparr>claims := (seen @ [x]) @ pre @ setitem c ''status'' (PStr ''approved'') # rest,
                  items := map (mark_claimed c) (items st)\<rparr>))"
    by simp
  with v show ?case by simp
qed

lemma approve_loop_not_found:
  assumes "\<forall>x\<in>set cs. has_key x ''claim_id'' \<and> \<not> claim_matches cid x"
  shows "approve_loop dump st seen cs cid = (Inr False, st)"
  using assms
proof (induction cs arbitrary: seen)
  case Nil
  show ?case by simp
next
  case (Cons x cs)
  then obtain v where v: "getitem x ''claim_id'' = Inr v" "\<not> py_eq v cid"
    using has_key_getitem[of x "''claim_id''"]
    by (auto simp: claim_matches_def split: sum.splits)
  with Cons show ?case by simp
qed

lemma approve_loop_True_saved:
  "fst (approve_loop dump st seen cs cid) = Inr True \<Longrightarrow>
   \<exists>st2. snd (approve_loop dump st seen cs cid) = save_all dump st2"
proof (induction cs arbitrary: seen)
  case Nil
  then show ?case by simp
next
  case (Cons x cs)
  show ?case
  proof (cases "getitem x ''claim_id''")
    case (Inl e)
    with Cons.prems show ?thesis by simp
  next
    case (Inr v)
    show ?thesis
    proof (cases "py_eq v cid")
      case True
      with Inr Cons.prems show ?thesis
        by (auto simp: Let_def split: prod.splits sum.splits)
    next
      case False
      with Inr Cons show ?thesis by simp
    qed
  qed
qed

lemma approve_claim_found:
  assumes wfc: "\<forall>c\<in>set (claims st). has_key c ''claim_id'' \<and> has_key c ''item_id''"
    and wfi: "\<forall>it\<in>set (items st). has_key it ''item_id''"
    and split: "claims st = seen @ c # rest"
    and first: "\<forall>x\<in>set seen. \<not> claim_matches cid x"
    and hit: "claim_matches cid c"
  shows "approve_claim dump st cid =
           (Inr True,
            save_all dump
              (st\<lparr>claims := seen @ setitem c ''status'' (PStr ''approved'') # rest,
                  items := map (mark_claimed c) (items st)\<rparr>))"
proof -
  have pre: "\<forall>x\<in>set seen. has_key x ''claim_id'' \<and> \<not> claim_matches cid x"
    using wfc first split by simp
  have k: "has_key c ''item_id''"
    using wfc split by simp
  show ?thesis
    unfolding approve_claim_def split
    using approve_loop_found[OF pre hit k wfi, of dump "[]" rest] by simp
qed

lemma mark_claimed_status:
  "same_item c it \<Longrightarrow> getitem (mark_claimed c it) ''status'' = Inr (PStr ''claimed'')"
  by (simp add: mark_claimed_def getitem_setitem_same)

section \<open>The example store\<close>

lemma ex_store_wf_claims:
  "\<forall>c\<in>set (claims ex_store). has_key c ''claim_id'' \<and> has_key c ''item_id''"
  by (simp add: ex_store_def ex_claim_def has_key_def)

lemma ex_store_wf_items:
  "\<forall>it\<in>set (items ex_store). has_key it ''item_id''"
  by (simp add: ex_store_def ex_item_def has_key_def)

lemma ex_store_split:
  "claims ex_store = [] @ ex_claim ''CLM-5678'' ''ITEM-1234'' ''pending''
                        # [ex_claim ''CLM-5678'' ''ITEM-2222'' ''pending'']"
  by (simp add: ex_store_def)

lemma ex_claim_hit:
  "claim_matches (PStr ''CLM-5678'') (ex_claim ''CLM-5678'' ''ITEM-1234'' ''pending'')"
  by (simp add: claim_matches_def ex_claim_def getitem_def py_eq_def)

lemma ex_approve:
  "approve_claim json_dumps ex_store (PStr ''CLM-5678'') =
     (Inr True,
      save_all json_dumps
        (ex_store\<lparr>claims := [ex_claim ''CLM-5678'' ''ITEM-1234'' ''approved'',
                              ex_claim ''CLM-5678'' ''ITEM-2222'' ''pending''],
                   items := [ex_item ''ITEM-1234'' ''Black Wallet'' ''claimed'',
                             ex_item ''ITEM-2222'' ''Umbrella'' ''reported'',
                             ex_item ''ITEM-1234'' ''Wallet Chain'' ''claimed'']\<rparr>))"
  by (simp add: approve_claim_def ex_store_def ex_claim_def ex_item_def getitem_def py_eq_def)

section \<open>The operations of the record store\<close>

text \<open>
  C1 (\<^verbatim>\<open>approve_claim\<close>): in a store whose claims have a \<^verbatim>\<open>claim_id\<close> and an \<^verbatim>\<open>item_id\<close>
  field and whose items have an \<^verbatim>\<open>item_id\<close> field, a claim id that matches some claim
  sets the status of that claim (the first one matching) to \<^verbatim>\<open>approved\<close>, sets the status
  of every item whose \<^verbatim>\<open>item_id\<close> equals the claim's to \<^verbatim>\<open>claimed\<close>, and returns
  \<^verbatim>\<open>True\<close>; an id that matches no claim returns \<^verbatim>\<open>False\<close> and leaves the whole state,
  the files included, as it was.
\<close>

theorem approve_claim_spec:
  assumes wfc: "\<forall>c\<in>set (claims st). has_key c ''claim_id'' \<and> has_key c ''item_id''"
    and wfi: "\<forall>it\<in>set (items st). has_key it ''item_id''"
  shows "((\<exists>c\<in>set (claims st). claim_matches claim_id c) \<longrightarrow>
            (\<exists>seen c rest.
               claims st = seen @ c # rest \<and> claim_matches claim_id c
               \<and> fst (approve_claim dump st claim_id) = Inr True
               \<and> claims (snd (approve_claim dump st claim_id))
                   = seen @ setitem c ''status'' (PStr ''approved'') # rest
               \<and> getitem (setitem c ''status'' (PStr ''approved'')) ''status''
                   = Inr (PStr ''approved'')
               \<and> items (snd (approve_claim dump st claim_id)) = map (mark_claimed c) (items st)
               \<and> (\<forall>it\<in>set (items st).
                     same_item c it \<longrightarrow>
                       getitem (mark_claimed c it) ''status'' = Inr (PStr ''claimed''))))
         \<and> (\<not> (\<exists>c\<in>set (claims st). claim_matches claim_id c) \<longrightarrow>
              approve_claim dump st claim_id = (Inr False, st))"
proof (intro conjI impI)
  assume "\<exists>c\<in>set (claims st). claim_matches claim_id c"
  then obtain seen c rest where split: "claims st = seen @ c # rest"
    and hit: "claim_matches claim_id c"
    and first: "\<forall>x\<in>set seen. \<not> claim_matches claim_id x"
    using split_list_first_prop[of "claims st" "claim_matches claim_id"] by blast
  note res = approve_claim_found[OF wfc wfi split first hit, of dump]
  show "\<exists>seen c rest.
               claims st = seen @ c # rest \<and> claim_matches claim_id c
               \<and> fst (approve_claim dump st claim_id) = Inr True
               \<and> claims (snd (approve_claim dump st claim_id))
                   = seen @ setitem c ''status'' (PStr ''approved'') # rest
               \<and> getitem (setitem c ''status'' (PStr ''approved'')) ''status''
                   = Inr (PStr ''approved'')
               \<and> items (snd (approve_claim dump st claim_id)) = map (mark_claimed c) (items st)
               \<and> (\<forall>it\<in>set (items st).
                     same_item c it \<longrightarrow>
                       getitem (mark_claimed c it) ''status'' = Inr (PStr ''claimed''))"
    apply (rule exI[of _ seen], rule exI[of _ c], rule exI[of _ rest])
    using split hit
    by (simp add: res save_all_fields getitem_setitem_same mark_claimed_status)
next
  assume "\<not> (\<exists>c\<in>set (claims st). claim_matches claim_id c)"
  with wfc have "\<forall>x\<in>set (claims st). has_key x ''claim_id'' \<and> \<not> claim_matches claim_id x"
    by simp
  then show "approve_claim dump st claim_id = (Inr False, st)"
    unfolding approve_claim_def by (rule approve_loop_not_found)
qed

theorem approve_claim_spec_witness:
  "fst (approve_claim json_dumps ex_store (PStr ''CLM-5678'')) = Inr True
   \<and> claims (snd (approve_claim json_dumps ex_store (PStr ''CLM-5678'')))
       = [ex_claim ''CLM-5678'' ''ITEM-1234'' ''approved'',
          ex_claim ''CLM-5678'' ''ITEM-2222'' ''pending'']
   \<and> items (snd (approve_claim json_dumps ex_store (PStr ''CLM-5678'')))
       = [ex_item ''ITEM-1234'' ''Black Wallet'' ''claimed'',
          ex_item ''ITEM-2222'' ''Umbrella'' ''reported'',
          ex_item ''ITEM-1234'' ''Wallet Chain'' ''claimed'']
   \<and> approve_claim json_dumps ex_store (PStr ''CLM-0000'') = (Inr False, ex_store)"
proof -
  have found: "\<exists>c\<in>set (claims ex_store). claim_matches (PStr ''CLM-5678'') c"
    by (simp add: ex_store_def ex_claim_def claim_matches_def getitem_def py_eq_def)
  have absent: "\<not> (\<exists>c\<in>set (claims ex_store). claim_matches (PStr ''CLM-0000'') c)"
    by (simp add: ex_store_def ex_claim_def claim_matches_def getitem_def py_eq_def)
  note spec = approve_claim_spec[OF ex_store_wf_claims ex_store_wf_items, where dump = json_dumps]
  from spec[where claim_id = "PStr ''CLM-5678''"] found
  have t: "fst (approve_claim json_dumps ex_store (PStr ''CLM-5678'')) = Inr True"
    by blast
  from spec[where claim_id = "PStr ''CLM-0000''"] absent
  have f: "approve_claim json_dumps ex_store (PStr ''CLM-0000'') = (Inr False, ex_store)"
    by blast
  show ?thesis
    using t f by (simp add: ex_approve save_all_fields)
qed

text \<open>
  C2 (\<^verbatim>\<open>login\<close>): when every user record has an email and a password field, \<^verbatim>\<open>login\<close>
  returns the first user record whose email equals the given email and whose password equals
  the given password, and it returns \<^verbatim>\<open>None\<close> exactly when no record matches both.
\<close>

theorem login_first_match:
  assumes "\<forall>u\<in>set (users st). has_key u ''email'' \<and> has_key u ''password''"
  shows "login st email password = Inr (find (credentials_match email password) (users st))
         \<and> (login st email password = Inr None
              \<longleftrightarrow> \<not> (\<exists>u\<in>set (users st). credentials_match email password u))"
proof -
  have eq: "login st email password = Inr (find (credentials_match email password) (users st))"
    unfolding login_def using assms by (rule login_loop_find)
  have "find (credentials_match email password) (users st) = None
        \<longleftrightarrow> \<not> (\<exists>u\<in>set (users st). credentials_match email password u)"
    by (auto simp: find_None_iff)
  with eq show ?thesis by simp
qed

theorem login_first_match_witness:
  "login ex_store (PStr ''admin@dlfs.com'') (PStr ''admin123'') = Inr (Some admin_user)
   \<and> login ex_store (PStr ''admin@dlfs.com'') (PStr ''letmein'') = Inr None"
proof -
  have wf: "\<forall>u\<in>set (users ex_store). has_key u ''email'' \<and> has_key u ''password''"
    by (simp add: ex_store_def admin_user_def has_key_def)
  have m: "credentials_match (PStr ''admin@dlfs.com'') (PStr ''admin123'') admin_user"
    by (simp add: credentials_match_def admin_user_def getitem_def py_eq_def)
  have n: "\<not> credentials_match (PStr ''admin@dlfs.com'') (PStr ''letmein'') admin_user"
    by (simp add: credentials_match_def admin_user_def getitem_def py_eq_def)
  have u: "users ex_store = [admin_user]"
    by (simp add: ex_store_def)
  show ?thesis
    using login_first_match[OF wf, of "PStr ''admin@dlfs.com''" "PStr ''admin123''"]
      login_first_match[OF wf, of "PStr ''admin@dlfs.com''" "PStr ''letmein''"] m n
    by (simp add: u)
qed

text \<open>
  C3 (\<^verbatim>\<open>search_items\<close>): when every item has a string as its name, the result is exactly
  the items, in their order, whose lower-cased name contains the lower-cased keyword; the
  empty keyword returns every item.
\<close>

theorem search_items_filter:
  assumes "\<forall>it\<in>set (items st). \<exists>s. getitem it ''name'' = Inr (PStr s)"
  shows "search_items st keyword = Inr (filter (name_contains keyword) (items st))
         \<and> search_items st [] = Inr (items st)"
proof -
  have all: "\<And>k. search_items st k = Inr (filter (name_contains k) (items st))"
    unfolding search_items_def using assms by (rule search_loop_filter)
  have "filter (name_contains []) (items st) = items st"
    using assms name_contains_empty by (auto simp: filter_id_conv)
  with all show ?thesis by simp
qed

theorem search_items_filter_witness:
  "search_items ex_store ''WALLET''
     = Inr [ex_item ''ITEM-1234'' ''Black Wallet'' ''reported'',
            ex_item ''ITEM-1234'' ''Wallet Chain'' ''reported'']
   \<and> search_items ex_store [] = Inr (items ex_store)"
proof -
  have wf: "\<forall>it\<in>set (items ex_store). \<exists>s. getitem it ''name'' = Inr (PStr s)"
    by (simp add: ex_store_def ex_item_def getitem_def)
  have f: "filter (name_contains ''WALLET'') (items ex_store)
     = [ex_item ''ITEM-1234'' ''Black Wallet'' ''reported'',
        ex_item ''ITEM-1234'' ''Wallet Chain'' ''reported'']"
    by code_simp
  show ?thesis
    using search_items_filter[OF wf, of "''WALLET''"] by (simp add: f)
qed

text \<open>
  C4 (\<^verbatim>\<open>report_item\<close>): the item list grows by exactly one record, appended at the end; the
  record has status \<^verbatim>\<open>reported\<close> and the name, description, location and item type as
  given, and the identifier returned is the record's \<^verbatim>\<open>item_id\<close>.
\<close>

theorem report_item_adds_one_record:
  "let (res, st') = report_item dump st r name description location item_type user_id;
       new = last (items st')
   in items st' = items st @ [new]
      \<and> length (items st') = length (items st) + 1
      \<and> getitem new ''status'' = Inr (PStr ''reported'')
      \<and> getitem new ''name'' = Inr name
      \<and> getitem new ''description'' = Inr description
      \<and> getitem new ''location'' = Inr location
      \<and> getitem new ''item_type'' = Inr item_type
      \<and> res = getitem new ''item_id''
      \<and> res = Inr (PStr (''ITEM-'' @ str_int r))"
  by (simp add: report_item_def Let_def save_all_fields ReportedItem_def getitem_def getattr_def)

text \<open>
  C5 (\<^verbatim>\<open>claim_item\<close>): for every state, user id and item id, whether or not they occur in
  the lists, the claim list grows by exactly one record with status \<^verbatim>\<open>pending\<close>, the given
  user id and item id, and the identifier returned is the record's \<^verbatim>\<open>claim_id\<close>.
\<close>

theorem claim_item_adds_one_record:
  "let (res, st') = claim_item dump st r user_id item_id;
       new = last (claims st')
   in claims st' = claims st @ [new]
      \<and> length (claims st') = length (claims st) + 1
      \<and> getitem new ''status'' = Inr (PStr ''pending'')
      \<and> getitem new ''user_id'' = Inr user_id
      \<and> getitem new ''item_id'' = Inr item_id
      \<and> res = getitem new ''claim_id''
      \<and> res = Inr (PStr (''CLM-'' @ str_int r))"
  by (simp add: claim_item_def Let_def save_all_fields Claim_def getitem_def getattr_def)

text \<open>
  C6 (\<^verbatim>\<open>save_all\<close>): after \<^verbatim>\<open>report_item\<close>, after \<^verbatim>\<open>claim_item\<close>, and after an
  \<^verbatim>\<open>approve_claim\<close> that returns \<^verbatim>\<open>True\<close>, each of the three files holds what
  \<^verbatim>\<open>json.dump\<close> writes for the list in memory, the lists the operation did not change
  included.
\<close>

theorem mutations_persist_all_three:
  "persisted dump (snd (report_item dump st r name description location item_type user_id))
   \<and> persisted dump (snd (claim_item dump st r user_id item_id))
   \<and> (fst (approve_claim dump st claim_id) = Inr True \<longrightarrow>
        persisted dump (snd (approve_claim dump st claim_id)))"
proof (intro conjI impI)
  show "persisted dump (snd (report_item dump st r name description location item_type user_id))"
    by (simp add: report_item_def Let_def persisted_save_all)
  show "persisted dump (snd (claim_item dump st r user_id item_id))"
    by (simp add: claim_item_def Let_def persisted_save_all)
next
  assume "fst (approve_claim dump st claim_id) = Inr True"
  then obtain st2 where "snd (approve_claim dump st claim_id) = save_all dump st2"
    unfolding approve_claim_def using approve_loop_True_saved by blast
  then show "persisted dump (snd (approve_claim dump st claim_id))"
    by (simp add: persisted_save_all)
qed

theorem mutations_persist_all_three_witness:
  "fst (approve_claim json_dumps ex_store (PStr ''CLM-5678'')) = Inr True
   \<and> persisted json_dumps (snd (approve_claim json_dumps ex_store (PStr ''CLM-5678'')))"
proof -
  have t: "fst (approve_claim json_dumps ex_store (PStr ''CLM-5678'')) = Inr True"
    by (simp add: ex_approve)
  with mutations_persist_all_three[where dump = json_dumps and st = ex_store
      and claim_id = "PStr ''CLM-5678''"]
  show ?thesis by blast
qed

text \<open>
  C7 (\<^verbatim>\<open>save_data\<close>, \<^verbatim>\<open>load_data\<close>): saving a list of records under a file name and then
  loading that file name yields the list saved, field for field, whatever the files held
  before.  This holds for every \<^verbatim>\<open>json.dump\<close> and \<^verbatim>\<open>json.load\<close> and every list, the empty
  one included, that the second reads back from the text the first writes for it; and with
  the printer and reader of this theory it holds for every list of dictionaries (the keys of
  a dictionary are distinct).
\<close>

theorem save_then_load:
  "(load (dump data) = Inr data \<longrightarrow>
      load_data load (save_data dump fs file_name data) file_name = Inr data)
   \<and> ((\<forall>d\<in>set data. distinct (map fst d)) \<longrightarrow>
        load_data json_loads (save_data json_dumps fs file_name data) file_name = Inr data)"
proof (intro conjI impI)
  assume "load (dump data) = Inr data"
  then show "load_data load (save_data dump fs file_name data) file_name = Inr data"
    by (simp add: load_data_def save_data_def Let_def)
next
  assume "\<forall>d\<in>set data. distinct (map fst d)"
  then have "json_loads (json_dumps data) = Inr data"
    by (rule json_loads_json_dumps)
  then show "load_data json_loads (save_data json_dumps fs file_name data) file_name = Inr data"
    by (simp add: load_data_def save_data_def Let_def)
qed

theorem save_then_load_witness:
  "load_data json_loads (save_data json_dumps Map.empty ''users.json'' [admin_user])
     ''users.json'' = Inr [admin_user]
   \<and> load_data json_loads (save_data json_dumps Map.empty ''items.json'' []) ''items.json''
     = Inr []"
proof -
  have keys: "\<forall>d\<in>set [admin_user]. distinct (map fst d)"
    by (simp add: admin_user_def)
  have none: "json_loads (json_dumps []) = Inr []"
    by code_simp
  from keys save_then_load[where data = "[admin_user]" and fs = Map.empty
      and file_name = "''users.json''"]
  have a: "load_data json_loads (save_data json_dumps Map.empty ''users.json'' [admin_user])
     ''users.json'' = Inr [admin_user]"
    by blast
  from none save_then_load[where load = json_loads and dump = json_dumps and data = "[]"
      and fs = Map.empty and file_name = "''items.json''"]
  have b: "load_data json_loads (save_data json_dumps Map.empty ''items.json'' []) ''items.json''
     = Inr []"
    by blast
  from a b show ?thesis by simp
qed

text \<open>
  C8 (\<^verbatim>\<open>load_data\<close>): the specification says that a file that exists and whose content
  does not parse as JSON loads as the empty list, for every collection name, and that no
  error reaches the caller.  The \<^verbatim>\<open>except\<close> clause of \<^verbatim>\<open>load_data\<close>, commented ``return empty list if file is
  empty or corrupted'', catches \<^verbatim>\<open>JSONDecodeError\<close> only (\<open>load_data_decode_error\<close> is that
  case).  A file whose bytes are not UTF-8 is corrupted as well, but reading it raises
  \<^verbatim>\<open>UnicodeDecodeError\<close>, which the clause does not catch: with \<^verbatim>\<open>items.json\<close> holding the
  single byte \<^verbatim>\<open>FF\<close>, \<^verbatim>\<open>load_data\<close> raises and returns no list.
\<close>

theorem load_data_undecodable_file:
  "load_data json_load_file [''data/items.json'' \<mapsto> [CHR 0xFF]] ''items.json''
     = Inl UnicodeDecodeError"
proof -
  have bytes: "utf8_decode [CHR 0xFF] = Inl UnicodeDecodeError"
    by simp
  then have raised: "json_load_file [CHR 0xFF] = Inl UnicodeDecodeError"
    by (simp add: json_load_file_def)
  have found: "[''data/items.json'' \<mapsto> [CHR 0xFF]] (os_path_join DATA_DIR ''items.json'')
                 = Some [CHR 0xFF]"
    by (simp add: data_path)
  from found raised show ?thesis
    by (simp add: load_data_def Let_def)
qed

text \<open>
  C9 (\<^verbatim>\<open>report_item\<close>): with the number drawn fixed, two calls that differ only in the
  reporting user id return the same value and the same state; the record created has the six
  fields of an item and none for the reporting user.
\<close>

theorem report_item_ignores_user_id:
  "report_item dump st r name description location item_type u1
     = report_item dump st r name description location item_type u2
   \<and> map fst (last (items (snd (report_item dump st r name description location item_type u1))))
     = [''item_id'', ''name'', ''description'', ''location'', ''item_type'', ''status'']"
  by (simp add: report_item_def Let_def save_all_fields ReportedItem_def)

text \<open>
  C10 (\<^verbatim>\<open>approve_claim\<close>, colliding identifiers): only the first claim whose id matches is
  changed, the claims before it and all claims after it stay as they were, also those after
  it with the same id; every item whose \<^verbatim>\<open>item_id\<close> equals the claim's gets the status
  \<^verbatim>\<open>claimed\<close>, not only the first, and every other item stays as it was.
\<close>

theorem approve_claim_first_claim_every_item:
  assumes wfc: "\<forall>c\<in>set (claims st). has_key c ''claim_id'' \<and> has_key c ''item_id''"
    and wfi: "\<forall>it\<in>set (items st). has_key it ''item_id''"
    and split: "claims st = seen @ c # rest"
    and first: "\<forall>x\<in>set seen. \<not> claim_matches claim_id x"
    and hit: "claim_matches claim_id c"
  shows "let st' = snd (approve_claim dump st claim_id)
         in take (length seen) (claims st') = seen
            \<and> getitem (claims st' ! length seen) ''status'' = Inr (PStr ''approved'')
            \<and> drop (Suc (length seen)) (claims st') = rest
            \<and> length (items st') = length (items st)
            \<and> (\<forall>i<length (items st).
                  if same_item c (items st ! i)
                  then getitem (items st' ! i) ''status'' = Inr (PStr ''claimed'')
                  else items st' ! i = items st ! i)"
proof -
  note res = approve_claim_found[OF wfc wfi split first hit, of dump]
  show ?thesis
    by (simp add: res Let_def save_all_fields getitem_setitem_same mark_claimed_def)
qed

theorem approve_claim_collision_witness:
  "getitem (claims (snd (approve_claim json_dumps ex_store (PStr ''CLM-5678''))) ! 0) ''status''
     = Inr (PStr ''approved'')
   \<and> drop 1 (claims (snd (approve_claim json_dumps ex_store (PStr ''CLM-5678''))))
     = [ex_claim ''CLM-5678'' ''ITEM-2222'' ''pending'']
   \<and> claim_matches (PStr ''CLM-5678'') (ex_claim ''CLM-5678'' ''ITEM-2222'' ''pending'')
   \<and> map (\<lambda>it. getitem it ''status'')
        (items (snd (approve_claim json_dumps ex_store (PStr ''CLM-5678''))))
     = [Inr (PStr ''claimed''), Inr (PStr ''reported''), Inr (PStr ''claimed'')]"
proof -
  have first: "\<forall>x\<in>set []. \<not> claim_matches (PStr ''CLM-5678'') x"
    by simp
  note col = approve_claim_first_claim_every_item
    [OF ex_store_wf_claims ex_store_wf_items ex_store_split first ex_claim_hit,
     where dump = json_dumps]
  from col have a: "getitem (claims (snd (approve_claim json_dumps ex_store (PStr ''CLM-5678''))) ! 0)
        ''status'' = Inr (PStr ''approved'')"
    by (simp add: Let_def)
  from col have b: "drop 1 (claims (snd (approve_claim json_dumps ex_store (PStr ''CLM-5678''))))
     = [ex_claim ''CLM-5678'' ''ITEM-2222'' ''pending'']"
    by (simp add: Let_def)
  have c: "claim_matches (PStr ''CLM-5678'') (ex_claim ''CLM-5678'' ''ITEM-2222'' ''pending'')"
    by (simp add: claim_matches_def ex_claim_def getitem_def py_eq_def)
  have d: "map (\<lambda>it. getitem it ''status'')
        (items (snd (approve_claim json_dumps ex_store (PStr ''CLM-5678''))))
     = [Inr (PStr ''claimed''), Inr (PStr ''reported''), Inr (PStr ''claimed'')]"
    by (simp add: ex_approve save_all_fields ex_item_def getitem_def)
  from a b c d show ?thesis by simp
qed

end
